theory Spec2Isabelle
  imports Main
begin

section \<open>The MG SAIC message handler (message_handler.py)\<close>

subsection \<open>Data\<close>

text \<open>
  A \<^verbatim>\<open>datetime\<close> is only compared, never computed with, so it is a natural number:
  the microseconds elapsed since \<^verbatim>\<open>datetime.min\<close>, the least datetime of Python.
\<close>

type_synonym datetime = nat

definition datetime_min :: datetime where
  "datetime_min = 0"

text \<open>A message id is \<^verbatim>\<open>str | int | None\<close>; a string never equals an integer.\<close>

datatype message_id = IdStr string | IdInt int

text \<open>
  The \<^verbatim>\<open>MessageEntity\<close> of the vendor SDK, with the attributes the handler reads.
\<close>

record MessageEntity =
  messageId :: "message_id option"
  messageType :: string
  message_time :: datetime
  read_status :: string
  title :: string
  vin :: string

text \<open>The response of \<^verbatim>\<open>get_alarm_list\<close>: an object whose \<^verbatim>\<open>messages\<close> may be None.\<close>

record MessageResp =
  messages :: "MessageEntity list option"

text \<open>The exceptions of class \<^verbatim>\<open>Exception\<close> that occur.\<close>

datatype error = ApiError | TypeError | KeyError

text \<open>
  What an awaited call can raise: an exception of class \<^verbatim>\<open>Exception\<close>, or
  \<^verbatim>\<open>asyncio.CancelledError\<close>, which derives from \<^verbatim>\<open>BaseException\<close> and which
  \<^verbatim>\<open>except Exception\<close> therefore does not catch.
\<close>

datatype raised = Error error | CancelledError

fun is_exception :: "raised \<Rightarrow> bool" where
  "is_exception (Error e) = True"
| "is_exception CancelledError = False"

text \<open>A data update coordinator, named by the config entry it was created for.\<close>

datatype coordinator = Coordinator string

text \<open>
  The collaborators of one invocation: what each call to the API client and to a
  coordinator does when it is made. \<^verbatim>\<open>Inl\<close> is a raised exception. The fetch
  is the call that every invocation makes and waits for, and the model follows both
  kinds of raise through it; for the three other calls it covers the exceptions of
  class \<^verbatim>\<open>Exception\<close>, the ones their handlers are written for.
\<close>

record api =
  client_get_alarm_list :: "nat \<Rightarrow> raised + MessageResp option"
  client_read_message :: "message_id \<Rightarrow> error + unit"
  client_delete_message :: "message_id \<Rightarrow> error + unit"
  async_request_refresh :: "coordinator \<Rightarrow> error + unit"

text \<open>The calls made to the collaborators, in the order they are made.\<close>

datatype event =
    GetAlarmList nat
  | ReadMessage message_id
  | DeleteMessage message_id
  | RequestRefresh coordinator

text \<open>
  \<^verbatim>\<open>hass.data[DOMAIN]\<close> is a dictionary with four kinds of keys: a config entry id
  (the API client of the entry), the entry id followed by \<^verbatim>\<open>_coordinator\<close> (its
  coordinator), \<^verbatim>\<open>coordinators_by_vin\<close> (a dictionary from VIN to coordinator) and
  \<^verbatim>\<open>message_handler\<close> (the cancel callback of the periodic message check). Entry ids
  are generated by the platform and never one of the fixed keys, so each kind of key is a
  field of its own; a field is None while its key is absent. The dictionary itself is
  created by the first line of \<^verbatim>\<open>async_setup_entry\<close>, before any handler exists, and
  never removed: it starts empty.
\<close>

datatype client = Client string

record domain_data =
  clients :: "string \<rightharpoonup> client"
  coordinators :: "string \<rightharpoonup> coordinator"
  coordinators_by_vin :: "(string \<rightharpoonup> coordinator) option"
  message_handler :: "nat option"

text \<open>
  The part of the Home Assistant instance the integration touches: the dictionary
  stored under DOMAIN, and the number of message handlers constructed and of interval
  callbacks registered so far.
\<close>

record hass =
  data :: domain_data
  handlers_created :: nat
  callbacks_registered :: nat

definition init_hass :: hass where
  "init_hass =
     \<lparr>data = \<lparr>clients = Map.empty, coordinators = Map.empty,
               coordinators_by_vin = None, message_handler = None\<rparr>,
      handlers_created = 0, callbacks_registered = 0\<rparr>"

record handler =
  last_message_ts :: datetime
  last_message_id :: "message_id option"
  first_call :: bool

definition init_handler :: handler where
  "init_handler = \<lparr>last_message_ts = datetime_min, last_message_id = None, first_call = True\<rparr>"

subsection \<open>Oldest and latest message\<close>

text \<open>
  Python's \<^verbatim>\<open>min(xs, key=f)\<close> and \<^verbatim>\<open>max(xs, key=f)\<close> keep the first of several
  extremal elements: a later element replaces the current one only when it is strictly
  smaller (larger).
\<close>

definition get_latest_message :: "MessageEntity list \<Rightarrow> MessageEntity option" where
  "get_latest_message vehicle_start_messages =
     (case vehicle_start_messages of
        [] \<Rightarrow> None
      | m # ms \<Rightarrow>
          Some (foldl (\<lambda>best x. if message_time best < message_time x then x else best) m ms))"

definition get_oldest_message :: "MessageEntity list \<Rightarrow> MessageEntity option" where
  "get_oldest_message vehicle_start_messages =
     (case vehicle_start_messages of
        [] \<Rightarrow> None
      | m # ms \<Rightarrow>
          Some (foldl (\<lambda>best x. if message_time x < message_time best then x else best) m ms))"

subsection \<open>Fetching the alarm messages\<close>

text \<open>
  The loop of \<^verbatim>\<open>get_all_alarm_messages\<close>, from page \<open>idx\<close> with the messages
  accumulated so far. It has no bound of its own, so a run that never returns is the
  value None. A pair holds what the method does and the calls made: \<^verbatim>\<open>Inr\<close> is the
  Python result (None after an exception of \<^verbatim>\<open>get_alarm_list\<close> that
  \<^verbatim>\<open>except Exception\<close> catches), \<^verbatim>\<open>Inl\<close> a raise that the handler does not
  catch and that leaves the method.
\<close>

partial_function (option) alarm_loop ::
  "api \<Rightarrow> datetime \<Rightarrow> nat \<Rightarrow> MessageEntity list \<Rightarrow> event list
     \<Rightarrow> ((raised + MessageEntity list option) \<times> event list) option"
where
  "alarm_loop a ts idx all_messages evs =
     (case client_get_alarm_list a idx of
        Inl e \<Rightarrow>
          if is_exception e then Some (Inr None, evs @ [GetAlarmList idx])
          else Some (Inl e, evs @ [GetAlarmList idx])
      | Inr message_list \<Rightarrow>
          (case message_list of
             None \<Rightarrow> Some (Inr (Some all_messages), evs @ [GetAlarmList idx])
           | Some ml \<Rightarrow>
               (case messages ml of
                  None \<Rightarrow> Some (Inr (Some all_messages), evs @ [GetAlarmList idx])
                | Some ms \<Rightarrow>
                    if ms = [] then Some (Inr (Some all_messages), evs @ [GetAlarmList idx])
                    else
                      (case get_oldest_message (all_messages @ ms) of
                         None \<Rightarrow>
                           alarm_loop a ts (idx + 1) (all_messages @ ms) (evs @ [GetAlarmList idx])
                       | Some oldest_message \<Rightarrow>
                           if message_time oldest_message < ts
                           then Some (Inr (Some (all_messages @ ms)), evs @ [GetAlarmList idx])
                           else alarm_loop a ts (idx + 1) (all_messages @ ms)
                                  (evs @ [GetAlarmList idx])))))"

definition get_all_alarm_messages ::
  "api \<Rightarrow> handler \<Rightarrow> ((raised + MessageEntity list option) \<times> event list) option" where
  "get_all_alarm_messages a h = alarm_loop a (last_message_ts h) 1 [] []"

subsection \<open>Marking as read and deleting\<close>

text \<open>
  \<^verbatim>\<open>read_message\<close> and \<^verbatim>\<open>__delete_message\<close> call the API client only for a message
  with an id. An exception of the client is caught and logged in the method itself, so
  both outcomes of the call leave the same trace: the call that was made.
\<close>

definition read_message :: "api \<Rightarrow> MessageEntity \<Rightarrow> event list" where
  "read_message a message =
     (case messageId message of
        Some message_id \<Rightarrow>
          (case client_read_message a message_id of
             Inl e \<Rightarrow> [ReadMessage message_id]
           | Inr u \<Rightarrow> [ReadMessage message_id])
      | None \<Rightarrow> [])"

definition delete_message :: "api \<Rightarrow> MessageEntity \<Rightarrow> event list" where
  "delete_message a message =
     (case messageId message of
        Some message_id \<Rightarrow>
          (case client_delete_message a message_id of
             Inl e \<Rightarrow> [DeleteMessage message_id]
           | Inr u \<Rightarrow> [DeleteMessage message_id])
      | None \<Rightarrow> [])"

subsection \<open>Checking for new messages\<close>

text \<open>
  Lines 50 to 53: \<^verbatim>\<open>hass.data[DOMAIN].get("coordinators_by_vin", {}).get(vin)\<close>.
  A coordinator object is always truthy, so \<^verbatim>\<open>if coordinator\<close> asks whether the
  lookup found one.
\<close>

definition lookup_coordinator :: "hass \<Rightarrow> string \<Rightarrow> coordinator option" where
  "lookup_coordinator hs v =
     (case coordinators_by_vin (data hs) of
        None \<Rightarrow> None
      | Some by_vin \<Rightarrow> by_vin v)"

text \<open>
  Lines 38 to 67: the latest message is compared with the stored id and timestamp, the
  two are advanced, and unless this is the first call the coordinator of the message's
  VIN is asked to refresh. An exception of the refresh is caught and logged on the spot.
\<close>

definition watermark_step ::
  "hass \<Rightarrow> api \<Rightarrow> handler \<Rightarrow> MessageEntity list \<Rightarrow> handler \<times> event list" where
  "watermark_step hs a h all_messages =
     (case get_latest_message all_messages of
        None \<Rightarrow> (h, [])
      | Some latest_message \<Rightarrow>
          if messageId latest_message \<noteq> last_message_id h
             \<and> last_message_ts h < message_time latest_message
          then
            (let h' = h\<lparr>last_message_id := messageId latest_message,
                         last_message_ts := message_time latest_message\<rparr>
             in if \<not> first_call h' then
                  (case lookup_coordinator hs (vin latest_message) of
                     None \<Rightarrow> (h', [])
                   | Some coordinator \<Rightarrow>
                       (case async_request_refresh a coordinator of
                          Inl e \<Rightarrow> (h', [RequestRefresh coordinator])
                        | Inr u \<Rightarrow> (h', [RequestRefresh coordinator])))
                else (h', []))
          else (h, []))"

text \<open>Lines 70 to 74: the vehicle start messages to delete.\<close>

definition vehicle_start_messages :: "handler \<Rightarrow> MessageEntity list \<Rightarrow> MessageEntity list" where
  "vehicle_start_messages h all_messages =
     filter (\<lambda>m. messageType m = ''323'' \<and> messageId m \<noteq> last_message_id h) all_messages"

text \<open>
  The body of the \<^verbatim>\<open>try\<close> block of \<^verbatim>\<open>check_for_new_messages\<close>. A raise that
  leaves the fetch leaves the body too. Iterating over the None that a failed fetch
  returns raises TypeError. The state of the handler at the moment of an exception is
  kept, as Python keeps the assignments made before it.
\<close>

definition check_body ::
  "hass \<Rightarrow> api \<Rightarrow> handler \<Rightarrow> ((raised + unit) \<times> handler \<times> event list) option" where
  "check_body hs a h =
     (case get_all_alarm_messages a h of
        None \<Rightarrow> None
      | Some (Inl e, evs1) \<Rightarrow> Some (Inl e, h, evs1)
      | Some (Inr None, evs1) \<Rightarrow> Some (Inl (Error TypeError), h, evs1)
      | Some (Inr (Some all_messages), evs1) \<Rightarrow>
          (let new_messages = filter (\<lambda>m. read_status m \<noteq> ''read'') all_messages;
               evs2 = concat (map (read_message a) new_messages);
               (h', evs3) = watermark_step hs a h all_messages;
               evs4 = concat (map (delete_message a) (vehicle_start_messages h' all_messages))
           in Some (Inr (), h'\<lparr>first_call := False\<rparr>, evs1 @ evs2 @ evs3 @ evs4)))"

text \<open>
  \<^verbatim>\<open>check_for_new_messages\<close>: an exception of class \<^verbatim>\<open>Exception\<close> that the
  body raises is caught and logged, and the method returns normally; any other raise
  passes through \<^verbatim>\<open>except Exception\<close>. The first component is what reaches the
  caller.
\<close>

definition check_for_new_messages ::
  "hass \<Rightarrow> api \<Rightarrow> handler \<Rightarrow> ((raised + unit) \<times> handler \<times> event list) option" where
  "check_for_new_messages hs a h =
     (case check_body hs a h of
        None \<Rightarrow> None
      | Some (Inl e, h', evs) \<Rightarrow>
          if is_exception e then Some (Inr (), h', evs) else Some (Inl e, h', evs)
      | Some (Inr u, h', evs) \<Rightarrow> Some (Inr (), h', evs))"

subsection \<open>What the fetch loop sees\<close>

text \<open>
  The messages of page \<open>i\<close> as the loop reads them: a response that is None, has no
  message list or an empty one, contributes nothing, and so does a call that raises.
\<close>

definition page :: "api \<Rightarrow> nat \<Rightarrow> MessageEntity list" where
  "page a i =
     (case client_get_alarm_list a i of
        Inl e \<Rightarrow> []
      | Inr None \<Rightarrow> []
      | Inr (Some ml) \<Rightarrow> (case messages ml of None \<Rightarrow> [] | Some ms \<Rightarrow> ms))"

definition page_fails :: "api \<Rightarrow> nat \<Rightarrow> bool" where
  "page_fails a i = (case client_get_alarm_list a i of Inl e \<Rightarrow> True | Inr r \<Rightarrow> False)"

text \<open>The messages of pages 1 to \<open>k\<close>, and the calls that fetch these pages.\<close>

definition fetched :: "api \<Rightarrow> nat \<Rightarrow> MessageEntity list" where
  "fetched a k = concat (map (page a) [1..<Suc k])"

definition fetch_events :: "nat \<Rightarrow> event list" where
  "fetch_events k = map GetAlarmList [1..<Suc k]"

text \<open>
  Page \<open>k\<close> ends the loop: the call raises, or the page is empty, or the messages of
  pages 1 to \<open>k\<close> include one strictly older than the timestamp.
\<close>

definition stops_at :: "api \<Rightarrow> datetime \<Rightarrow> nat \<Rightarrow> bool" where
  "stops_at a ts k \<longleftrightarrow>
     page_fails a k \<or> page a k = [] \<or> (\<exists>x \<in> set (fetched a k). message_time x < ts)"

text \<open>What the loop does when page \<open>k\<close> ends it.\<close>

definition stop_result :: "api \<Rightarrow> nat \<Rightarrow> raised + MessageEntity list option" where
  "stop_result a k =
     (case client_get_alarm_list a k of
        Inl e \<Rightarrow> if is_exception e then Inr None else Inl e
      | Inr r \<Rightarrow>
          if page a k = [] then Inr (Some (fetched a (k - 1)))
          else Inr (Some (fetched a k)))"

section \<open>Setting up a config entry (__init__.py)\<close>

text \<open>
  A config entry: its id and the values of \<^verbatim>\<open>entry.data\<close>. The keys
  \<^verbatim>\<open>username\<close> and \<^verbatim>\<open>password\<close> are read with \<^verbatim>\<open>entry.data[...]\<close>, which raises
  KeyError when the key is missing (None here); the others are read with \<^verbatim>\<open>get\<close>.
\<close>

record ConfigEntry =
  entry_id :: string
  username :: "string option"
  password :: "string option"
  entry_vin :: "string option"
  region :: "string option"
  country_code :: "string option"

text \<open>
  What the collaborators do during one call of \<^verbatim>\<open>async_setup_entry\<close>:
  \<^verbatim>\<open>get_vehicle_info\<close> returns the VINs of the account's vehicles. The
  constructors of the client, the coordinator and the message handler only store their
  arguments.
\<close>

record setup_env =
  login :: "error + unit"
  get_vehicle_info :: "error + string list"
  coordinator_async_setup :: "error + unit"
  add_update_listener :: "error + unit"
  async_forward_entry_setups :: "error + unit"
  async_setup_services :: "error + unit"
  async_track_time_interval :: "error + unit"

text \<open>
  Lines 70 to 83: a message handler is constructed and its periodic callback registered
  only when nothing truthy is stored under \<^verbatim>\<open>message_handler\<close>; the cancel callback
  that \<^verbatim>\<open>async_track_time_interval\<close> returns is a function, so it is truthy. It is
  named by the number of callbacks registered before it. When the registration raises,
  the handler has been constructed but nothing is registered or stored.
\<close>

definition setup_message_handler :: "hass \<Rightarrow> setup_env \<Rightarrow> (error + unit) \<times> hass" where
  "setup_message_handler hs env =
     (case message_handler (data hs) of
        Some cancel \<Rightarrow> (Inr (), hs)
      | None \<Rightarrow>
          (case async_track_time_interval env of
             Inl e \<Rightarrow> (Inl e, hs\<lparr>handlers_created := Suc (handlers_created hs)\<rparr>)
           | Inr u \<Rightarrow>
               (Inr (),
                hs\<lparr>data := (data hs)\<lparr>message_handler := Some (callbacks_registered hs)\<rparr>,
                   handlers_created := Suc (handlers_created hs),
                   callbacks_registered := Suc (callbacks_registered hs)\<rparr>)))"

text \<open>Line 47: the client is stored under the entry id.\<close>

definition store_client :: "hass \<Rightarrow> ConfigEntry \<Rightarrow> client \<Rightarrow> hass" where
  "store_client hs entry c =
     hs\<lparr>data := (data hs)\<lparr>clients := (clients (data hs))(entry_id entry \<mapsto> c)\<rparr>\<rparr>"

text \<open>
  Lines 53 to 57: the coordinator is stored under the entry id and, in the dictionary
  \<^verbatim>\<open>coordinators_by_vin\<close> (created empty when absent), under the VIN.
\<close>

definition store_coordinator :: "hass \<Rightarrow> ConfigEntry \<Rightarrow> string \<Rightarrow> coordinator \<Rightarrow> hass" where
  "store_coordinator hs entry v c =
     (let by_vin = (case coordinators_by_vin (data hs) of None \<Rightarrow> Map.empty | Some d \<Rightarrow> d)
      in hs\<lparr>data := (data hs)
              \<lparr>coordinators := (coordinators (data hs))(entry_id entry \<mapsto> c),
               coordinators_by_vin := Some (by_vin(v \<mapsto> c))\<rparr>\<rparr>)"

text \<open>
  \<^verbatim>\<open>async_setup_entry\<close>. The two reads of \<^verbatim>\<open>entry.data[...]\<close> are outside the
  \<^verbatim>\<open>try\<close> block, so their KeyError reaches the caller; every exception inside it
  makes the function return False, with the entries of the dictionary written so far
  left in place.
\<close>

definition async_setup_entry :: "hass \<Rightarrow> ConfigEntry \<Rightarrow> setup_env \<Rightarrow> (error + bool) \<times> hass" where
  "async_setup_entry hs entry env =
     (case username entry of
        None \<Rightarrow> (Inl KeyError, hs)
      | Some user \<Rightarrow>
     (case password entry of
        None \<Rightarrow> (Inl KeyError, hs)
      | Some pw \<Rightarrow>
     (case login env of
        Inl e \<Rightarrow> (Inr False, hs)
      | Inr u \<Rightarrow>
     (case entry_vin entry of
        None \<Rightarrow> (Inr False, hs)
      | Some v \<Rightarrow>
          if v = [] then (Inr False, hs)
          else
     (case get_vehicle_info env of
        Inl e \<Rightarrow> (Inr False, hs)
      | Inr vehicles \<Rightarrow>
          if \<not> (\<exists>w \<in> set vehicles. w = v) then (Inr False, hs)
          else
     (case coordinator_async_setup env of
        Inl e \<Rightarrow> (Inr False, store_client hs entry (Client (entry_id entry)))
      | Inr u \<Rightarrow>
     (case add_update_listener env of
        Inl e \<Rightarrow>
          (Inr False, store_coordinator (store_client hs entry (Client (entry_id entry)))
             entry v (Coordinator (entry_id entry)))
      | Inr u \<Rightarrow>
     (case async_forward_entry_setups env of
        Inl e \<Rightarrow>
          (Inr False, store_coordinator (store_client hs entry (Client (entry_id entry)))
             entry v (Coordinator (entry_id entry)))
      | Inr u \<Rightarrow>
     (case async_setup_services env of
        Inl e \<Rightarrow>
          (Inr False, store_coordinator (store_client hs entry (Client (entry_id entry)))
             entry v (Coordinator (entry_id entry)))
      | Inr u \<Rightarrow>
     (case setup_message_handler
             (store_coordinator (store_client hs entry (Client (entry_id entry)))
                entry v (Coordinator (entry_id entry))) env of
        (Inl e, hs') \<Rightarrow> (Inr False, hs')
      | (Inr u, hs') \<Rightarrow> (Inr True, hs')))))))))))"

text \<open>
  A sequence of setup calls on the same instance, one after the other: the instance they
  leave behind, and whether every one of them returned True.
\<close>

fun setup_all :: "hass \<Rightarrow> (ConfigEntry \<times> setup_env) list \<Rightarrow> hass" where
  "setup_all hs [] = hs"
| "setup_all hs ((entry, env) # calls) = setup_all (snd (async_setup_entry hs entry env)) calls"

fun all_succeed :: "hass \<Rightarrow> (ConfigEntry \<times> setup_env) list \<Rightarrow> bool" where
  "all_succeed hs [] = True"
| "all_succeed hs ((entry, env) # calls) =
     (fst (async_setup_entry hs entry env) = Inr True
      \<and> all_succeed (snd (async_setup_entry hs entry env)) calls)"

section \<open>Example inputs\<close>

text \<open>A message with an integer id, for VIN \<^verbatim>\<open>VIN1\<close>.\<close>

definition example_message :: "int \<Rightarrow> string \<Rightarrow> datetime \<Rightarrow> string \<Rightarrow> MessageEntity" where
  "example_message i ty t rs =
     \<lparr>messageId = Some (IdInt i), messageType = ty, message_time = t, read_status = rs,
      title = ''Vehicle start'', vin = ''VIN1''\<rparr>"

text \<open>An API client that serves the given pages and whose other calls succeed.\<close>

definition quiet_api :: "(nat \<Rightarrow> raised + MessageResp option) \<Rightarrow> api" where
  "quiet_api pages =
     \<lparr>client_get_alarm_list = pages, client_read_message = (\<lambda>i. Inr ()),
      client_delete_message = (\<lambda>i. Inr ()), async_request_refresh = (\<lambda>c. Inr ())\<rparr>"

text \<open>
  A message list served one message per page, as \<^verbatim>\<open>page_size=1\<close> asks for: page
  \<open>i\<close> holds the \<open>i\<close>-th message, and every page past the end is empty.
\<close>

definition list_pages :: "MessageEntity list \<Rightarrow> nat \<Rightarrow> raised + MessageResp option" where
  "list_pages ms i =
     (if 1 \<le> i \<and> i \<le> length ms then Inr (Some \<lparr>messages = Some [ms ! (i - 1)]\<rparr>)
      else Inr (Some \<lparr>messages = Some []\<rparr>))"

text \<open>A server that answers every page with the same message.\<close>

definition endless_pages :: "MessageEntity \<Rightarrow> nat \<Rightarrow> raised + MessageResp option" where
  "endless_pages m i = Inr (Some \<lparr>messages = Some [m]\<rparr>)"

text \<open>A handler that has seen message 2, of timestamp 5, on an earlier call.\<close>

definition example_handler :: handler where
  "example_handler = \<lparr>last_message_ts = 5, last_message_id = Some (IdInt 2), first_call = False\<rparr>"

text \<open>Two message lists, newest first: one around the timestamp 5, one tied with it.\<close>

definition newest_first_pages :: "MessageEntity list" where
  "newest_first_pages = [example_message 3 ''323'' 9 ''unread'', example_message 1 ''323'' 3 ''read'']"

definition tied_pages :: "MessageEntity list" where
  "tied_pages = [example_message 2 ''323'' 5 ''read'', example_message 1 ''323'' 5 ''read'']"



fun is_delete :: "event \<Rightarrow> bool" where
  "is_delete (DeleteMessage i) = True"
| "is_delete e = False"


text \<open>An instance with one coordinator, stored under \<^verbatim>\<open>VIN1\<close>.\<close>

definition example_hass :: hass where
  "example_hass =
     init_hass\<lparr>data := (data init_hass)
       \<lparr>coordinators_by_vin := Some [''VIN1'' \<mapsto> Coordinator ''entry1'']\<rparr>\<rparr>"

text \<open>A server whose every call of \<^verbatim>\<open>get_alarm_list\<close> raises.\<close>

definition failing_pages :: "nat \<Rightarrow> raised + MessageResp option" where
  "failing_pages i = Inl (Error ApiError)"

text \<open>A task that is cancelled while it waits for the first page.\<close>

definition cancelled_pages :: "nat \<Rightarrow> raised + MessageResp option" where
  "cancelled_pages i = Inl CancelledError"


text \<open>A config entry for a vehicle, and collaborators that all succeed.\<close>

definition example_entry :: "string \<Rightarrow> string \<Rightarrow> ConfigEntry" where
  "example_entry eid v =
     \<lparr>entry_id = eid, username = Some ''user@example.org'', password = Some ''secret'',
      entry_vin = Some v, region = Some ''eu'', country_code = None\<rparr>"

definition ok_env :: "string list \<Rightarrow> setup_env" where
  "ok_env vehicles =
     \<lparr>login = Inr (), get_vehicle_info = Inr vehicles, coordinator_async_setup = Inr (),
      add_update_listener = Inr (), async_forward_entry_setups = Inr (),
      async_setup_services = Inr (), async_track_time_interval = Inr ()\<rparr>"

text \<open>One setup call for each of the two vehicles of an account.\<close>

definition two_vehicle_setups :: "(ConfigEntry \<times> setup_env) list" where
  "two_vehicle_setups =
     [(example_entry ''entry1'' ''VIN1'', ok_env [''VIN1'', ''VIN2'']),
      (example_entry ''entry2'' ''VIN2'', ok_env [''VIN1'', ''VIN2''])]"

text \<open>
  The three fields of an instance that concern the message handler, and the invariant
  that ties them: nothing made while nothing is stored, one of each once a callback is.
\<close>

definition handler_fields :: "hass \<Rightarrow> nat option \<times> nat \<times> nat" where
  "handler_fields hs = (message_handler (data hs), handlers_created hs, callbacks_registered hs)"

definition handler_count_ok :: "hass \<Rightarrow> bool" where
  "handler_count_ok hs \<longleftrightarrow>
     (case message_handler (data hs) of
        None \<Rightarrow> handlers_created hs = 0 \<and> callbacks_registered hs = 0
      | Some cancel \<Rightarrow> handlers_created hs = 1 \<and> callbacks_registered hs = 1)"

section \<open>Properties of the fetch loop\<close>

lemma foldl_min_by:
  fixes f :: "'a \<Rightarrow> nat"
  shows "foldl (\<lambda>best x. if f x < f best then x else best) m ms \<in> set (m # ms) \<and>
         (\<forall>x \<in> set (m # ms). f (foldl (\<lambda>best x. if f x < f best then x else best) m ms) \<le> f x)"
proof (induction ms rule: rev_induct)
  case Nil
  show ?case by simp
next
  case (snoc y ys)
  then show ?case by (auto simp: not_less intro: order_trans less_imp_le)
qed

lemma foldl_max_by:
  fixes f :: "'a \<Rightarrow> nat"
  defines "g \<equiv> (\<lambda>best x. if f best < f x then x else best)"
  shows "\<exists>pre post. m # ms = pre @ foldl g m ms # post \<and>
         (\<forall>x \<in> set pre. f x < f (foldl g m ms)) \<and>
         (\<forall>x \<in> set post. f x \<le> f (foldl g m ms))"
proof (induction ms rule: rev_induct)
  case Nil
  have "[m] = [] @ m # []" by simp
  then show ?case by fastforce
next
  case (snoc y ys)
  define b where "b = foldl g m ys"
  from snoc obtain pre post where sp: "m # ys = pre @ b # post"
    and pre: "\<forall>x \<in> set pre. f x < f b" and post: "\<forall>x \<in> set post. f x \<le> f b"
    unfolding b_def by blast
  show ?case
  proof (cases "f b < f y")
    case True
    then have r: "foldl g m (ys @ [y]) = y" by (simp add: g_def b_def)
    have "\<forall>x \<in> set (m # ys). f x < f y"
    proof
      fix x assume "x \<in> set (m # ys)"
      then have "x \<in> set pre \<or> x = b \<or> x \<in> set post" unfolding sp by auto
      then consider "x \<in> set pre" | "x = b" | "x \<in> set post" by blast
      then show "f x < f y"
      proof cases
        case 1 then have "f x < f b" using pre by blast
        then show ?thesis using True by linarith
      next
        case 2 then show ?thesis using True by simp
      next
        case 3 then have "f x \<le> f b" using post by blast
        then show ?thesis using True by linarith
      qed
    qed
    moreover have "m # ys @ [y] = (m # ys) @ y # []" by simp
    ultimately have "m # ys @ [y] = (m # ys) @ foldl g m (ys @ [y]) # [] \<and>
       (\<forall>x \<in> set (m # ys). f x < f (foldl g m (ys @ [y]))) \<and>
       (\<forall>x \<in> set []. f x \<le> f (foldl g m (ys @ [y])))"
      unfolding r by simp
    then show ?thesis by blast
  next
    case False
    then have r: "foldl g m (ys @ [y]) = b" by (simp add: g_def b_def)
    have "m # ys @ [y] = pre @ b # (post @ [y])" using sp by simp
    moreover have "\<forall>x \<in> set (post @ [y]). f x \<le> f b" using post False by auto
    ultimately have "m # ys @ [y] = pre @ foldl g m (ys @ [y]) # (post @ [y]) \<and>
       (\<forall>x \<in> set pre. f x < f (foldl g m (ys @ [y]))) \<and>
       (\<forall>x \<in> set (post @ [y]). f x \<le> f (foldl g m (ys @ [y])))"
      unfolding r using pre by simp
    then show ?thesis by blast
  qed
qed

lemma get_oldest_message_None: "get_oldest_message ms = None \<longleftrightarrow> ms = []"
  by (simp add: get_oldest_message_def split: list.splits)

lemma get_oldest_message_Some:
  assumes "get_oldest_message ms = Some m"
  shows "m \<in> set ms \<and> (\<forall>x \<in> set ms. message_time m \<le> message_time x)"
proof (cases ms)
  case Nil
  with assms show ?thesis by (simp add: get_oldest_message_def)
next
  case (Cons y ys)
  with assms have "m = foldl (\<lambda>best x. if message_time x < message_time best then x else best) y ys"
    by (simp add: get_oldest_message_def)
  then show ?thesis using foldl_min_by [of message_time y ys] Cons by simp
qed

lemma oldest_before_iff:
  assumes "ms \<noteq> []"
  shows "(\<exists>m. get_oldest_message ms = Some m \<and> message_time m < ts) \<longleftrightarrow>
         (\<exists>x \<in> set ms. message_time x < ts)"
proof -
  from assms obtain m where m: "get_oldest_message ms = Some m"
    using get_oldest_message_None [of ms] by (cases "get_oldest_message ms") auto
  from get_oldest_message_Some [OF m] show ?thesis using m
    by (auto intro: le_less_trans)
qed

lemma stop_result_fails:
  "page_fails a k \<Longrightarrow>
   \<exists>e. client_get_alarm_list a k = Inl e
     \<and> stop_result a k = (if is_exception e then Inr None else Inl e)"
  by (cases "client_get_alarm_list a k") (simp_all add: page_fails_def stop_result_def)

lemma stop_result_served:
  "\<not> page_fails a k \<Longrightarrow>
   stop_result a k =
     (if page a k = [] then Inr (Some (fetched a (k - 1))) else Inr (Some (fetched a k)))"
  by (cases "client_get_alarm_list a k") (simp_all add: page_fails_def stop_result_def)

lemma stop_result_Inl: "stop_result a k = Inl e \<Longrightarrow> \<not> is_exception e"
  by (cases "client_get_alarm_list a k") (auto simp: stop_result_def split: if_splits)

lemma alarm_loop_step:
  "alarm_loop a ts idx acc evs =
     (if page_fails a idx then Some (stop_result a idx, evs @ [GetAlarmList idx])
      else if page a idx = [] then Some (Inr (Some acc), evs @ [GetAlarmList idx])
      else if \<exists>x \<in> set (acc @ page a idx). message_time x < ts
           then Some (Inr (Some (acc @ page a idx)), evs @ [GetAlarmList idx])
      else alarm_loop a ts (Suc idx) (acc @ page a idx) (evs @ [GetAlarmList idx]))"
proof (cases "client_get_alarm_list a idx")
  case (Inl e)
  then show ?thesis by (subst alarm_loop.simps) (simp add: page_fails_def stop_result_def)
next
  case (Inr r)
  show ?thesis
  proof (cases "page a idx = []")
    case True
    with Inr show ?thesis
      by (subst alarm_loop.simps) (auto simp: page_fails_def page_def split: option.splits)
  next
    case False
    with Inr obtain ml where r: "r = Some ml" and ms: "messages ml = Some (page a idx)"
      by (auto simp: page_def split: option.splits)
    have ne: "acc @ page a idx \<noteq> []" using False by simp
    obtain m where m: "get_oldest_message (acc @ page a idx) = Some m"
      using get_oldest_message_None [of "acc @ page a idx"] ne
      by (cases "get_oldest_message (acc @ page a idx)") auto
    have iff: "message_time m < ts \<longleftrightarrow> (\<exists>x \<in> set (acc @ page a idx). message_time x < ts)"
      using oldest_before_iff [OF ne, of ts] m by simp
    have pf: "\<not> page_fails a idx" using Inr by (simp add: page_fails_def)
    show ?thesis
      apply (subst alarm_loop.simps)
      using Inr r ms False m iff pf apply simp
      done
  qed
qed

lemma fetched_Suc: "fetched a (Suc k) = fetched a k @ page a (Suc k)"
  by (simp add: fetched_def)

lemma fetch_events_Suc: "fetch_events (Suc k) = fetch_events k @ [GetAlarmList (Suc k)]"
  by (simp add: fetch_events_def)

lemma alarm_loop_run:
  assumes "\<forall>i. 1 \<le> i \<and> i \<le> n \<longrightarrow> \<not> stops_at a ts i"
  shows "alarm_loop a ts 1 [] [] = alarm_loop a ts (Suc n) (fetched a n) (fetch_events n)"
  using assms
proof (induction n)
  case 0
  show ?case by (simp add: fetched_def fetch_events_def)
next
  case (Suc n)
  then have ih: "alarm_loop a ts 1 [] [] = alarm_loop a ts (Suc n) (fetched a n) (fetch_events n)"
    by simp
  from Suc.prems have ns: "\<not> stops_at a ts (Suc n)" by simp
  then have c: "\<not> page_fails a (Suc n)" "page a (Suc n) \<noteq> []"
    "\<not> (\<exists>x \<in> set (fetched a n @ page a (Suc n)). message_time x < ts)"
    by (simp_all add: stops_at_def fetched_Suc)
  have "alarm_loop a ts (Suc n) (fetched a n) (fetch_events n) =
        alarm_loop a ts (Suc (Suc n)) (fetched a n @ page a (Suc n))
          (fetch_events n @ [GetAlarmList (Suc n)])"
    by (subst alarm_loop_step) (simp only: c if_False)
  then show ?case using ih by (simp add: fetched_Suc fetch_events_Suc)
qed

lemma alarm_loop_stop:
  assumes "stops_at a ts (Suc n)"
  shows "alarm_loop a ts (Suc n) (fetched a n) (fetch_events n) =
         Some (stop_result a (Suc n), fetch_events (Suc n))"
proof -
  have "alarm_loop a ts (Suc n) (fetched a n) (fetch_events n) =
     (if page_fails a (Suc n) then Some (stop_result a (Suc n), fetch_events (Suc n))
      else if page a (Suc n) = [] then Some (Inr (Some (fetched a n)), fetch_events (Suc n))
      else if \<exists>x \<in> set (fetched a (Suc n)). message_time x < ts
           then Some (Inr (Some (fetched a (Suc n))), fetch_events (Suc n))
      else alarm_loop a ts (Suc (Suc n)) (fetched a (Suc n)) (fetch_events (Suc n)))"
    by (subst alarm_loop_step) (simp only: fetched_Suc fetch_events_Suc)
  then show ?thesis using assms
    by (cases "page_fails a (Suc n)") (auto simp: stops_at_def stop_result_served)
qed

lemma alarm_loop_first_stop:
  assumes "1 \<le> k" "stops_at a ts k" "\<forall>i. 1 \<le> i \<and> i < k \<longrightarrow> \<not> stops_at a ts i"
  shows "alarm_loop a ts 1 [] [] = Some (stop_result a k, fetch_events k)"
proof -
  from assms(1) obtain n where k: "k = Suc n" by (cases k) auto
  have "\<forall>i. 1 \<le> i \<and> i \<le> n \<longrightarrow> \<not> stops_at a ts i" using assms(3) k by auto
  from alarm_loop_run [OF this] alarm_loop_stop [of a ts n] assms(2) k
  show ?thesis by simp
qed

lemma alarm_loop_events_grow:
  assumes "alarm_loop a ts idx acc evs = Some y"
  shows "length evs < length (snd y)"
proof (rule alarm_loop.raw_induct
    [where P = "\<lambda>a ts idx acc evs y. length evs < length (snd y)", OF _ assms], goal_cases)
  case (1 f a ts idx acc evs y)
  from 1(2) show ?case
    by (auto split: sum.splits option.splits if_splits dest!: 1(1))
qed

lemma alarm_loop_returns_stops:
  assumes "alarm_loop a ts 1 [] [] = Some y"
  shows "\<exists>k\<ge>1. stops_at a ts k"
proof (rule ccontr)
  assume "\<not> (\<exists>k\<ge>1. stops_at a ts k)"
  then have "\<forall>i. 1 \<le> i \<and> i \<le> length (snd y) \<longrightarrow> \<not> stops_at a ts i" by blast
  from alarm_loop_run [OF this] assms
  have "alarm_loop a ts (Suc (length (snd y))) (fetched a (length (snd y)))
          (fetch_events (length (snd y))) = Some y" by simp
  from alarm_loop_events_grow [OF this] show False by (simp add: fetch_events_def del: upt_Suc)
qed

lemma set_fetched: "set (fetched a k) = (\<Union>i \<in> {1..k}. set (page a i))"
  by (auto simp: fetched_def atLeastLessThanSuc_atLeastAtMost simp del: upt_Suc)

lemma get_all_first_stop:
  assumes "1 \<le> k" "stops_at a (last_message_ts h) k"
    "\<forall>i. 1 \<le> i \<and> i < k \<longrightarrow> \<not> stops_at a (last_message_ts h) i"
  shows "get_all_alarm_messages a h = Some (stop_result a k, fetch_events k)"
  unfolding get_all_alarm_messages_def using alarm_loop_first_stop [OF assms] .

lemma get_all_Some_first_stop:
  assumes "get_all_alarm_messages a h = Some y"
  shows "\<exists>k\<ge>1. stops_at a (last_message_ts h) k
           \<and> (\<forall>i. 1 \<le> i \<and> i < k \<longrightarrow> \<not> stops_at a (last_message_ts h) i)
           \<and> y = (stop_result a k, fetch_events k)"
proof -
  let ?P = "\<lambda>k. 1 \<le> k \<and> stops_at a (last_message_ts h) k"
  from assms have "\<exists>k. ?P k"
    using alarm_loop_returns_stops [of a "last_message_ts h" y]
    by (auto simp: get_all_alarm_messages_def)
  then obtain k where k: "?P k" and least: "\<forall>i. i < k \<longrightarrow> \<not> ?P i"
    using exists_least_iff [of ?P] by auto
  then have "get_all_alarm_messages a h = Some (stop_result a k, fetch_events k)"
    by (intro get_all_first_stop) auto
  with assms k least show ?thesis by auto
qed

subsection \<open>When the loop returns\<close>

text \<open>
  Claim C3, as amended. The loop of \<^verbatim>\<open>get_all_alarm_messages\<close> has no bound of its
  own: it returns exactly when some page ends it, that is when a call of
  \<^verbatim>\<open>get_alarm_list\<close> raises, or a page is empty, or the messages fetched so far include
  one strictly older than the stored timestamp. It then returns after as many fetches as
  the number of the first such page.
\<close>

theorem get_all_alarm_messages_returns_iff:
  "((\<exists>y. get_all_alarm_messages a h = Some y) \<longleftrightarrow> (\<exists>k\<ge>1. stops_at a (last_message_ts h) k))
   \<and> (\<forall>k\<ge>1. stops_at a (last_message_ts h) k
          \<and> (\<forall>i. 1 \<le> i \<and> i < k \<longrightarrow> \<not> stops_at a (last_message_ts h) i)
        \<longrightarrow> (\<exists>r evs. get_all_alarm_messages a h = Some (r, evs) \<and> length evs = k))"
proof (intro conjI iffI allI impI)
  assume "\<exists>y. get_all_alarm_messages a h = Some y"
  then show "\<exists>k\<ge>1. stops_at a (last_message_ts h) k"
    using get_all_Some_first_stop [of a h] by blast
next
  assume "\<exists>k\<ge>1. stops_at a (last_message_ts h) k"
  then have "\<exists>k. 1 \<le> k \<and> stops_at a (last_message_ts h) k" by blast
  then obtain k where "1 \<le> k \<and> stops_at a (last_message_ts h) k"
    and "\<forall>i. i < k \<longrightarrow> \<not> (1 \<le> i \<and> stops_at a (last_message_ts h) i)"
    using exists_least_iff [of "\<lambda>k. 1 \<le> k \<and> stops_at a (last_message_ts h) k"] by auto
  then have "get_all_alarm_messages a h = Some (stop_result a k, fetch_events k)"
    by (intro get_all_first_stop) auto
  then show "\<exists>y. get_all_alarm_messages a h = Some y" by blast
next
  fix k
  assume "1 \<le> k" and "stops_at a (last_message_ts h) k
      \<and> (\<forall>i. 1 \<le> i \<and> i < k \<longrightarrow> \<not> stops_at a (last_message_ts h) i)"
  then have "get_all_alarm_messages a h = Some (stop_result a k, fetch_events k)"
    by (intro get_all_first_stop) auto
  moreover have "length (fetch_events k) = k" by (simp add: fetch_events_def del: upt_Suc)
  ultimately show "\<exists>r evs. get_all_alarm_messages a h = Some (r, evs) \<and> length evs = k"
    by blast
qed

text \<open>The example list of two messages is served in two pages; the third is empty.\<close>

lemma page_list_pages:
  "page (quiet_api (list_pages ms)) i = (if 1 \<le> i \<and> i \<le> length ms then [ms ! (i - 1)] else [])"
  by (simp add: page_def quiet_api_def list_pages_def)

lemma page_fails_list_pages: "\<not> page_fails (quiet_api (list_pages ms)) i"
  by (simp add: page_fails_def quiet_api_def list_pages_def)

theorem get_all_alarm_messages_returns_iff_witness:
  "\<exists>y. get_all_alarm_messages
          (quiet_api (list_pages [example_message 2 ''323'' 9 ''unread'',
                                  example_message 1 ''323'' 3 ''read''])) init_handler = Some y"
proof -
  have "stops_at (quiet_api (list_pages [example_message 2 ''323'' 9 ''unread'',
           example_message 1 ''323'' 3 ''read''])) (last_message_ts init_handler) 3"
    by (simp add: stops_at_def page_list_pages)
  then have "\<exists>k\<ge>1. stops_at (quiet_api (list_pages [example_message 2 ''323'' 9 ''unread'',
           example_message 1 ''323'' 3 ''read''])) (last_message_ts init_handler) k"
    by (intro exI [of _ 3]) simp
  then show ?thesis
    using get_all_alarm_messages_returns_iff
      [of "quiet_api (list_pages [example_message 2 ''323'' 9 ''unread'',
           example_message 1 ''323'' 3 ''read''])" init_handler]
    by blast
qed

text \<open>
  Claim C3, as stated, fails: against a server that never serves an empty page, a fresh
  handler (whose timestamp is \<^verbatim>\<open>datetime.min\<close>, older than which no message is) never
  returns from the loop.
\<close>

theorem get_all_alarm_messages_endless:
  "get_all_alarm_messages (quiet_api (endless_pages (example_message 1 ''323'' 5 ''unread'')))
     init_handler = None"
proof (cases "get_all_alarm_messages (quiet_api (endless_pages (example_message 1 ''323'' 5 ''unread'')))
     init_handler")
  case None
  then show ?thesis .
next
  case (Some y)
  then obtain k where "stops_at (quiet_api (endless_pages (example_message 1 ''323'' 5 ''unread'')))
      (last_message_ts init_handler) k"
    using get_all_Some_first_stop by blast
  then show ?thesis
    by (auto simp: stops_at_def page_def page_fails_def quiet_api_def endless_pages_def
        init_handler_def datetime_min_def)
qed

subsection \<open>Where the loop stops and what it has fetched\<close>

text \<open>
  Claim C2, as amended. \<^verbatim>\<open>get_all_alarm_messages\<close> fetches the pages 1, 2, 3, ... in
  this order and returns at the first page that ends the loop: None when the call raises
  an exception, the messages of the pages before it when the page is empty, the messages up to and
  including it when they hold a message strictly older than the stored timestamp. A
  message whose timestamp equals the stored one does not end the loop. When the server
  lists messages newest first and nothing after an empty page, and the last call did not
  raise, every message newer than the stored timestamp is in the returned list.
\<close>

theorem get_all_alarm_messages_first_stop:
  assumes k: "1 \<le> k"
    and stop: "stops_at a (last_message_ts h) k"
    and first: "\<forall>i. 1 \<le> i \<and> i < k \<longrightarrow> \<not> stops_at a (last_message_ts h) i"
  shows "get_all_alarm_messages a h = Some (stop_result a k, fetch_events k)
    \<and> (\<not> page_fails a k
        \<and> (\<forall>i j. 1 \<le> i \<and> i < j \<longrightarrow>
              (page a i = [] \<longrightarrow> page a j = [])
              \<and> (\<forall>x \<in> set (page a i). \<forall>y \<in> set (page a j). message_time y \<le> message_time x))
       \<longrightarrow> (\<exists>ms. stop_result a k = Inr (Some ms)
              \<and> (\<forall>j m. 1 \<le> j \<and> m \<in> set (page a j) \<and> last_message_ts h < message_time m
                    \<longrightarrow> m \<in> set ms)))"
proof (intro conjI impI)
  show "get_all_alarm_messages a h = Some (stop_result a k, fetch_events k)"
    using get_all_first_stop [OF k stop first] .
next
  assume ord: "\<not> page_fails a k
        \<and> (\<forall>i j. 1 \<le> i \<and> i < j \<longrightarrow>
              (page a i = [] \<longrightarrow> page a j = [])
              \<and> (\<forall>x \<in> set (page a i). \<forall>y \<in> set (page a j). message_time y \<le> message_time x))"
  then have nf: "\<not> page_fails a k" by blast
  show "\<exists>ms. stop_result a k = Inr (Some ms)
      \<and> (\<forall>j m. 1 \<le> j \<and> m \<in> set (page a j) \<and> last_message_ts h < message_time m
            \<longrightarrow> m \<in> set ms)"
  proof (cases "page a k = []")
    case True
    then have r: "stop_result a k = Inr (Some (fetched a (k - 1)))" using nf by (simp add: stop_result_served)
    have "m \<in> set (fetched a (k - 1))" if j: "1 \<le> j" and m: "m \<in> set (page a j)" for j m
    proof -
      have "j < k"
      proof (rule ccontr)
        assume "\<not> j < k"
        then have "j = k \<or> k < j" by auto
        then have "page a j = []" using True ord k by blast
        with m show False by simp
      qed
      then show ?thesis using j m by (auto simp: set_fetched)
    qed
    with r show ?thesis by blast
  next
    case False
    then have r: "stop_result a k = Inr (Some (fetched a k))" using nf by (simp add: stop_result_served)
    from stop False nf obtain x where x: "x \<in> set (fetched a k)" "message_time x < last_message_ts h"
      by (auto simp: stops_at_def)
    then obtain i where i: "1 \<le> i" "i \<le> k" "x \<in> set (page a i)" by (auto simp: set_fetched)
    have "m \<in> set (fetched a k)"
      if j: "1 \<le> j" and m: "m \<in> set (page a j)" and new: "last_message_ts h < message_time m" for j m
    proof -
      have "j \<le> k"
      proof (rule ccontr)
        assume "\<not> j \<le> k"
        then have "i < j" using i by simp
        then have "message_time m \<le> message_time x" using ord i m by blast
        with x new show False by simp
      qed
      then show ?thesis using j m by (auto simp: set_fetched)
    qed
    with r show ?thesis by blast
  qed
qed

lemma fetch_events_2: "fetch_events 2 = [GetAlarmList 1, GetAlarmList 2]"
  by (simp add: fetch_events_def upt_rec)

lemma fetch_events_3: "fetch_events 3 = [GetAlarmList 1, GetAlarmList 2, GetAlarmList 3]"
  by (simp add: fetch_events_def upt_rec)

lemma fetched_list_pages_2:
  "fetched (quiet_api (list_pages [m1, m2])) 2 = [m1, m2]"
  by (simp add: fetched_def page_list_pages upt_rec)

lemma fetched_list_pages_1:
  "fetched (quiet_api (list_pages [m1, m2])) (Suc 0) = [m1]"
  by (simp add: fetched_def page_list_pages upt_rec)


lemma stops_at_list_pages:
  "stops_at (quiet_api (list_pages ms)) ts k \<longleftrightarrow>
     \<not> (1 \<le> k \<and> k \<le> length ms)
     \<or> (\<exists>x \<in> set (fetched (quiet_api (list_pages ms)) k). message_time x < ts)"
  by (simp add: stops_at_def page_list_pages page_fails_list_pages)

lemma stop_result_list_pages:
  "stop_result (quiet_api (list_pages ms)) k =
     (if page (quiet_api (list_pages ms)) k = []
      then Inr (Some (fetched (quiet_api (list_pages ms)) (k - 1)))
      else Inr (Some (fetched (quiet_api (list_pages ms)) k)))"
  by (rule stop_result_served) (rule page_fails_list_pages)

theorem get_all_alarm_messages_first_stop_witness:
  "get_all_alarm_messages (quiet_api (list_pages newest_first_pages)) example_handler
     = Some (Inr (Some newest_first_pages), [GetAlarmList 1, GetAlarmList 2])
   \<and> last_message_ts example_handler < message_time (example_message 3 ''323'' 9 ''unread'')
   \<and> example_message 3 ''323'' 9 ''unread'' \<in> set newest_first_pages"
proof -
  let ?a = "quiet_api (list_pages newest_first_pages)"
  have f1: "fetched ?a (Suc 0) = [example_message 3 ''323'' 9 ''unread'']"
    and f2: "fetched ?a 2 = newest_first_pages"
    by (simp_all add: newest_first_pages_def fetched_list_pages_1 fetched_list_pages_2)
  have k: "(1::nat) \<le> 2" by simp
  have stop: "stops_at ?a (last_message_ts example_handler) 2"
    by (simp add: stops_at_list_pages f2)
       (simp add: newest_first_pages_def example_handler_def example_message_def)
  have first: "\<forall>i. 1 \<le> i \<and> i < 2 \<longrightarrow> \<not> stops_at ?a (last_message_ts example_handler) i"
  proof (intro allI impI)
    fix i :: nat assume "1 \<le> i \<and> i < 2"
    then have "i = 1" by simp
    then show "\<not> stops_at ?a (last_message_ts example_handler) i"
      by (simp add: stops_at_list_pages f1)
         (simp add: newest_first_pages_def example_handler_def example_message_def)
  qed
  have nf: "\<not> page_fails ?a 2" by (rule page_fails_list_pages)
  have ord: "\<forall>i j. 1 \<le> i \<and> i < j \<longrightarrow>
      (page ?a i = [] \<longrightarrow> page ?a j = [])
      \<and> (\<forall>x \<in> set (page ?a i). \<forall>y \<in> set (page ?a j). message_time y \<le> message_time x)"
  proof (intro allI impI)
    fix i j :: nat assume ij: "1 \<le> i \<and> i < j"
    show "(page ?a i = [] \<longrightarrow> page ?a j = [])
      \<and> (\<forall>x \<in> set (page ?a i). \<forall>y \<in> set (page ?a j). message_time y \<le> message_time x)"
    proof (cases "j = 2")
      case True
      with ij have "i = 1" by simp
      with True show ?thesis
        by (simp add: page_list_pages newest_first_pages_def example_message_def)
    next
      case False
      with ij have "2 < j" by simp
      then show ?thesis by (simp add: page_list_pages newest_first_pages_def)
    qed
  qed
  have sr: "stop_result ?a 2 = Inr (Some newest_first_pages)"
    by (simp add: stop_result_list_pages page_list_pages f2)
       (simp add: newest_first_pages_def)
  note main = get_all_alarm_messages_first_stop [OF k stop first]
  from main have ret: "get_all_alarm_messages ?a example_handler
      = Some (stop_result ?a 2, fetch_events 2)" by (rule conjunct1)
  from main nf ord obtain ms where ms: "stop_result ?a 2 = Inr (Some ms)"
    and all: "\<forall>j m. 1 \<le> j \<and> m \<in> set (page ?a j)
        \<and> last_message_ts example_handler < message_time m \<longrightarrow> m \<in> set ms"
    by blast
  from ms sr have eq: "ms = newest_first_pages" by simp
  have new: "last_message_ts example_handler < message_time (example_message 3 ''323'' 9 ''unread'')"
    by (simp add: example_handler_def example_message_def)
  have "example_message 3 ''323'' 9 ''unread'' \<in> set (page ?a 1)"
    by (simp add: page_list_pages newest_first_pages_def)
  with all new have "example_message 3 ''323'' 9 ''unread'' \<in> set ms" by blast
  with eq ret sr new show ?thesis by (simp only: fetch_events_2)
qed

text \<open>
  Claim C2, as stated, fails: the loop does not return as soon as the fetched messages
  hold one whose timestamp is not newer than the stored one. With the stored timestamp 5
  and a first page whose message has timestamp 5, the loop goes on to pages 2 and 3.
\<close>

theorem get_all_alarm_messages_tie_continues:
  "message_time (example_message 2 ''323'' 5 ''read'') \<le> last_message_ts example_handler
   \<and> get_all_alarm_messages (quiet_api (list_pages tied_pages)) example_handler
       = Some (Inr (Some tied_pages), [GetAlarmList 1, GetAlarmList 2, GetAlarmList 3])"
proof -
  let ?a = "quiet_api (list_pages tied_pages)"
  have f1: "fetched ?a (Suc 0) = [example_message 2 ''323'' 5 ''read'']"
    and f2: "fetched ?a 2 = tied_pages"
    by (simp_all add: tied_pages_def fetched_list_pages_1 fetched_list_pages_2)
  have stop: "stops_at ?a (last_message_ts example_handler) 3"
    by (simp add: stops_at_list_pages tied_pages_def)
  have first: "\<forall>i. 1 \<le> i \<and> i < 3 \<longrightarrow> \<not> stops_at ?a (last_message_ts example_handler) i"
  proof (intro allI impI)
    fix i :: nat assume "1 \<le> i \<and> i < 3"
    then have "i = 1 \<or> i = 2" by auto
    then show "\<not> stops_at ?a (last_message_ts example_handler) i"
    proof
      assume "i = 1"
      then show ?thesis
        by (simp add: stops_at_list_pages f1)
           (simp add: tied_pages_def example_handler_def example_message_def)
    next
      assume "i = 2"
      then show ?thesis
        by (simp add: stops_at_list_pages f2)
           (simp add: tied_pages_def example_handler_def example_message_def)
    qed
  qed
  have sr: "stop_result ?a 3 = Inr (Some tied_pages)"
    by (simp add: stop_result_list_pages page_list_pages f2)
       (simp add: tied_pages_def)
  have "get_all_alarm_messages ?a example_handler = Some (stop_result ?a 3, fetch_events 3)"
    by (rule get_all_first_stop [OF _ stop first]) simp
  then show ?thesis
    by (simp add: sr fetch_events_3 example_handler_def example_message_def)
qed

section \<open>Properties of the message check\<close>

lemma read_message_events:
  "read_message a m = (case messageId m of Some i \<Rightarrow> [ReadMessage i] | None \<Rightarrow> [])"
  by (simp add: read_message_def split: option.splits sum.splits)

lemma delete_message_events:
  "delete_message a m = (case messageId m of Some i \<Rightarrow> [DeleteMessage i] | None \<Rightarrow> [])"
  by (simp add: delete_message_def split: option.splits sum.splits)

lemma get_latest_message_None: "get_latest_message ms = None \<longleftrightarrow> ms = []"
  by (simp add: get_latest_message_def split: list.splits)

lemma get_latest_message_Some:
  assumes "get_latest_message ms = Some m"
  shows "\<exists>pre post. ms = pre @ m # post
           \<and> (\<forall>x \<in> set pre. message_time x < message_time m)
           \<and> (\<forall>x \<in> set post. message_time x \<le> message_time m)"
proof (cases ms)
  case Nil
  with assms show ?thesis by (simp add: get_latest_message_def)
next
  case (Cons y ys)
  with assms have "m = foldl (\<lambda>best x. if message_time best < message_time x then x else best) y ys"
    by (simp add: get_latest_message_def)
  then show ?thesis using foldl_max_by [of y ys message_time] Cons by simp
qed

text \<open>The handler and the refresh request that lines 38 to 67 leave behind.\<close>

lemma watermark_step_handler:
  "fst (watermark_step hs a h ms) =
     (case get_latest_message ms of
        None \<Rightarrow> h
      | Some m \<Rightarrow>
          if messageId m \<noteq> last_message_id h \<and> last_message_ts h < message_time m
          then h\<lparr>last_message_id := messageId m, last_message_ts := message_time m\<rparr>
          else h)"
  by (simp add: watermark_step_def Let_def split: option.splits sum.splits)

lemma watermark_step_events:
  "snd (watermark_step hs a h ms) =
     (case get_latest_message ms of
        None \<Rightarrow> []
      | Some m \<Rightarrow>
          if messageId m \<noteq> last_message_id h \<and> last_message_ts h < message_time m
             \<and> \<not> first_call h
          then (case lookup_coordinator hs (vin m) of None \<Rightarrow> [] | Some c \<Rightarrow> [RequestRefresh c])
          else [])"
  by (simp add: watermark_step_def Let_def split: option.splits sum.splits)

lemma check_fetch_diverges:
  "get_all_alarm_messages a h = None \<Longrightarrow> check_for_new_messages hs a h = None"
  by (simp add: check_for_new_messages_def check_body_def)

lemma check_fetch_failed:
  "get_all_alarm_messages a h = Some (Inr None, evs1)
   \<Longrightarrow> check_for_new_messages hs a h = Some (Inr (), h, evs1)"
  by (simp add: check_for_new_messages_def check_body_def)

lemma get_all_Inl_not_exception:
  assumes "get_all_alarm_messages a h = Some (Inl e, evs1)"
  shows "\<not> is_exception e"
proof -
  from get_all_Some_first_stop [OF assms] obtain k where "stop_result a k = Inl e" by auto
  then show ?thesis by (rule stop_result_Inl)
qed

lemma check_fetch_propagates:
  assumes "get_all_alarm_messages a h = Some (Inl e, evs1)"
  shows "check_for_new_messages hs a h = Some (Inl e, h, evs1)"
  using assms get_all_Inl_not_exception [OF assms]
  by (simp add: check_for_new_messages_def check_body_def)

lemma check_fetch_ok:
  "get_all_alarm_messages a h = Some (Inr (Some ms), evs1)
   \<Longrightarrow> check_for_new_messages hs a h =
       Some (Inr (), (fst (watermark_step hs a h ms))\<lparr>first_call := False\<rparr>,
         evs1 @ concat (map (read_message a) (filter (\<lambda>m. read_status m \<noteq> ''read'') ms))
           @ snd (watermark_step hs a h ms)
           @ concat (map (delete_message a)
               (vehicle_start_messages (fst (watermark_step hs a h ms)) ms)))"
  by (simp add: check_for_new_messages_def check_body_def Let_def split: prod.splits)






lemma get_all_single:
  assumes "last_message_ts h \<le> message_time m"
  shows "get_all_alarm_messages (quiet_api (list_pages [m])) h
           = Some (Inr (Some [m]), [GetAlarmList 1, GetAlarmList 2])"
proof -
  let ?a = "quiet_api (list_pages [m])"
  have f1: "fetched ?a (Suc 0) = [m]" by (simp add: fetched_def page_list_pages)
  have f2: "fetched ?a 2 = [m]" by (simp add: fetched_def page_list_pages upt_rec)
  have stop: "stops_at ?a (last_message_ts h) 2" by (simp add: stops_at_list_pages)
  have first: "\<forall>i. 1 \<le> i \<and> i < 2 \<longrightarrow> \<not> stops_at ?a (last_message_ts h) i"
  proof (intro allI impI)
    fix i :: nat assume "1 \<le> i \<and> i < 2"
    then have "i = 1" by simp
    then show "\<not> stops_at ?a (last_message_ts h) i"
      using assms by (simp add: stops_at_list_pages f1)
  qed
  have sr: "stop_result ?a 2 = Inr (Some [m])"
    by (simp add: stop_result_list_pages page_list_pages f1)
  have "get_all_alarm_messages ?a h = Some (stop_result ?a 2, fetch_events 2)"
    by (rule get_all_first_stop [OF _ stop first]) simp
  then show ?thesis by (simp add: sr fetch_events_2)
qed

lemma get_all_failing:
  "get_all_alarm_messages (quiet_api failing_pages) h = Some (Inr None, [GetAlarmList 1])"
proof -
  let ?a = "quiet_api failing_pages"
  have pf: "page_fails ?a 1" by (simp add: page_fails_def quiet_api_def failing_pages_def)
  then have stop: "stops_at ?a (last_message_ts h) 1" by (simp add: stops_at_def)
  have "get_all_alarm_messages ?a h = Some (stop_result ?a 1, fetch_events 1)"
    by (rule get_all_first_stop [OF _ stop]) simp_all
  then show ?thesis
    by (simp add: stop_result_def fetch_events_def quiet_api_def failing_pages_def)
qed

lemma get_all_cancelled:
  "get_all_alarm_messages (quiet_api cancelled_pages) h = Some (Inl CancelledError, [GetAlarmList 1])"
proof -
  let ?a = "quiet_api cancelled_pages"
  have pf: "page_fails ?a 1" by (simp add: page_fails_def quiet_api_def cancelled_pages_def)
  then have stop: "stops_at ?a (last_message_ts h) 1" by (simp add: stops_at_def)
  have "get_all_alarm_messages ?a h = Some (stop_result ?a 1, fetch_events 1)"
    by (rule get_all_first_stop [OF _ stop]) simp_all
  then show ?thesis
    by (simp add: stop_result_def fetch_events_def quiet_api_def cancelled_pages_def)
qed


lemma check_Some_cases:
  assumes "check_for_new_messages hs a h = Some (r, h', evs)"
  shows "(r = Inr () \<and> get_all_alarm_messages a h = Some (Inr None, evs) \<and> h' = h)
     \<or> (\<exists>e. r = Inl e \<and> get_all_alarm_messages a h = Some (Inl e, evs) \<and> h' = h)
     \<or> (r = Inr () \<and> (\<exists>ms evs1. get_all_alarm_messages a h = Some (Inr (Some ms), evs1)
           \<and> h' = (fst (watermark_step hs a h ms))\<lparr>first_call := False\<rparr>
           \<and> evs = evs1
               @ concat (map (read_message a) (filter (\<lambda>m. read_status m \<noteq> ''read'') ms))
               @ snd (watermark_step hs a h ms)
               @ concat (map (delete_message a)
                   (vehicle_start_messages (fst (watermark_step hs a h ms)) ms))))"
proof (cases "get_all_alarm_messages a h")
  case None
  with assms show ?thesis by (simp add: check_fetch_diverges)
next
  case (Some y)
  obtain res evs1 where y: "y = (res, evs1)" by (cases y)
  show ?thesis
  proof (cases res)
    case (Inl e)
    with Some y assms show ?thesis using check_fetch_propagates [of a h e evs1 hs] by simp
  next
    case (Inr ret)
    show ?thesis
    proof (cases ret)
      case None
      with Inr Some y assms show ?thesis using check_fetch_failed [of a h evs1 hs] by simp
    next
      case (Some ms)
      with Inr \<open>get_all_alarm_messages a h = Some y\<close> y assms show ?thesis
        using check_fetch_ok [of a h ms evs1 hs] by simp
    qed
  qed
qed

lemma watermark_step_ts:
  "last_message_ts h \<le> last_message_ts (fst (watermark_step hs a h ms))
   \<and> (last_message_id (fst (watermark_step hs a h ms)) \<noteq> last_message_id h
        \<or> last_message_ts (fst (watermark_step hs a h ms)) \<noteq> last_message_ts h
      \<longrightarrow> last_message_ts h < last_message_ts (fst (watermark_step hs a h ms)))"
  by (cases "get_latest_message ms") (simp_all add: watermark_step_handler)

subsection \<open>Exceptions\<close>

text \<open>
  Claim C8, as amended. Whenever the fetch comes back, \<^verbatim>\<open>check_for_new_messages\<close>
  comes back too, and what reaches its caller is never an exception of class
  \<^verbatim>\<open>Exception\<close>: a raise that leaves the fetch, which \<^verbatim>\<open>except Exception\<close>
  does not catch, goes on to the caller, with the handler as it was. When fetching the
  message list fails with an exception, so that \<^verbatim>\<open>get_all_alarm_messages\<close> returns
  None, the body of the \<^verbatim>\<open>try\<close> block raises on iterating over None and the call
  returns normally and leaves \<^verbatim>\<open>last_message_id\<close>, \<^verbatim>\<open>last_message_ts\<close> and
  \<^verbatim>\<open>first_call\<close> as they were.
\<close>

theorem check_for_new_messages_catches:
  assumes fetch: "get_all_alarm_messages a h = Some (res, evs1)"
  shows "\<exists>r h' evs. check_for_new_messages hs a h = Some (r, h', evs)
     \<and> (\<forall>e. r = Inl e \<longrightarrow> \<not> is_exception e)
     \<and> (\<forall>e. res = Inl e \<longrightarrow> r = Inl e \<and> h' = h \<and> evs = evs1)
     \<and> (res = Inr None \<longrightarrow>
           check_body hs a h = Some (Inl (Error TypeError), h, evs1)
           \<and> r = Inr () \<and> h' = h \<and> evs = evs1)"
proof (cases res)
  case (Inl e)
  with fetch have g: "get_all_alarm_messages a h = Some (Inl e, evs1)" by simp
  have "check_for_new_messages hs a h = Some (Inl e, h, evs1)"
    by (rule check_fetch_propagates [OF g])
  moreover have "\<not> is_exception e" by (rule get_all_Inl_not_exception [OF g])
  ultimately show ?thesis using Inl by simp
next
  case (Inr ret)
  show ?thesis
  proof (cases ret)
    case None
    with Inr fetch have g: "get_all_alarm_messages a h = Some (Inr None, evs1)" by simp
    have "check_for_new_messages hs a h = Some (Inr (), h, evs1)"
      by (rule check_fetch_failed [OF g])
    moreover have "check_body hs a h = Some (Inl (Error TypeError), h, evs1)"
      using g by (simp add: check_body_def)
    ultimately show ?thesis using Inr None by simp
  next
    case (Some ms)
    with Inr fetch have g: "get_all_alarm_messages a h = Some (Inr (Some ms), evs1)" by simp
    from check_fetch_ok [OF g, of hs] show ?thesis using Inr Some by simp
  qed
qed

theorem check_for_new_messages_catches_witness:
  "check_body example_hass (quiet_api failing_pages) example_handler
     = Some (Inl (Error TypeError), example_handler, [GetAlarmList 1])
   \<and> check_for_new_messages example_hass (quiet_api failing_pages) example_handler
     = Some (Inr (), example_handler, [GetAlarmList 1])"
proof -
  from check_for_new_messages_catches
    [where hs = example_hass and h = example_handler, OF get_all_failing]
  obtain r h' evs where
    "check_for_new_messages example_hass (quiet_api failing_pages) example_handler
       = Some (r, h', evs)"
    "check_body example_hass (quiet_api failing_pages) example_handler
       = Some (Inl (Error TypeError), example_handler, [GetAlarmList 1])"
    "r = Inr ()" "h' = example_handler" "evs = [GetAlarmList 1]"
    by blast
  then show ?thesis by simp
qed

text \<open>
  Claim C8, as stated, fails: when the task is cancelled while the first page is awaited,
  \<^verbatim>\<open>asyncio.CancelledError\<close> passes through the handler of
  \<^verbatim>\<open>get_all_alarm_messages\<close> and through the one of
  \<^verbatim>\<open>check_for_new_messages\<close> and reaches the caller.
\<close>

theorem check_for_new_messages_propagates_cancellation:
  "check_for_new_messages example_hass (quiet_api cancelled_pages) example_handler
     = Some (Inl CancelledError, example_handler, [GetAlarmList 1])
   \<and> \<not> is_exception CancelledError"
  using check_fetch_propagates [where hs = example_hass and h = example_handler, OF get_all_cancelled]
  by simp

subsection \<open>The stored timestamp\<close>

text \<open>
  Claim C4. The stored timestamp never goes back: after every call of
  \<^verbatim>\<open>check_for_new_messages\<close>, from every state, \<^verbatim>\<open>last_message_ts\<close> is at least
  what it was, and whenever the call assigned the watermark (the stored id or timestamp
  differs afterwards) the timestamp is strictly greater.
\<close>

theorem last_message_ts_monotone:
  assumes "check_for_new_messages hs a h = Some (r, h', evs)"
  shows "last_message_ts h \<le> last_message_ts h'
    \<and> (last_message_id h' \<noteq> last_message_id h \<or> last_message_ts h' \<noteq> last_message_ts h
        \<longrightarrow> last_message_ts h < last_message_ts h')"
proof -
  from check_Some_cases [OF assms]
  consider "h' = h"
    | ms where "h' = (fst (watermark_step hs a h ms))\<lparr>first_call := False\<rparr>"
    by blast
  then show ?thesis
  proof cases
    case 1
    then show ?thesis by simp
  next
    case 2
    then show ?thesis using watermark_step_ts [of h hs a ms] by simp
  qed
qed

lemma check_single:
  assumes "last_message_ts h \<le> message_time m"
  shows "check_for_new_messages hs (quiet_api (list_pages [m])) h =
       Some (Inr (), (fst (watermark_step hs (quiet_api (list_pages [m])) h [m]))\<lparr>first_call := False\<rparr>,
         [GetAlarmList 1, GetAlarmList 2]
           @ concat (map (read_message (quiet_api (list_pages [m])))
               (filter (\<lambda>m. read_status m \<noteq> ''read'') [m]))
           @ snd (watermark_step hs (quiet_api (list_pages [m])) h [m])
           @ concat (map (delete_message (quiet_api (list_pages [m])))
               (vehicle_start_messages (fst (watermark_step hs (quiet_api (list_pages [m])) h [m])) [m])))"
  using check_fetch_ok [OF get_all_single [OF assms]] .

lemma check_first_call_example:
  "check_for_new_messages example_hass
     (quiet_api (list_pages [example_message 1 ''323'' 9 ''unread''])) init_handler
   = Some (Inr (), \<lparr>last_message_ts = 9, last_message_id = Some (IdInt 1), first_call = False\<rparr>,
       [GetAlarmList 1, GetAlarmList 2, ReadMessage (IdInt 1)])"
proof -
  have "last_message_ts init_handler \<le> message_time (example_message 1 ''323'' 9 ''unread'')"
    by (simp add: init_handler_def datetime_min_def)
  from check_single [OF this, of example_hass] show ?thesis
    by (simp add: watermark_step_handler watermark_step_events get_latest_message_def
        read_message_events delete_message_events vehicle_start_messages_def
        example_message_def init_handler_def datetime_min_def)
qed


theorem last_message_ts_monotone_witness:
  "last_message_ts init_handler
     < last_message_ts \<lparr>last_message_ts = 9, last_message_id = Some (IdInt 1), first_call = False\<rparr>"
  using last_message_ts_monotone [OF check_first_call_example]
  by (simp add: init_handler_def)





subsection \<open>When a refresh is requested\<close>





subsection \<open>The first call\<close>










lemma delete_in_filter_delete: "DeleteMessage i \<in> set (filter is_delete xs) \<longleftrightarrow> DeleteMessage i \<in> set xs"
  by simp



subsection \<open>What is deleted\<close>






subsection \<open>What is marked as read, and when\<close>





subsection \<open>The message compared with the watermark\<close>

text \<open>
  Claim C6, as amended. The message compared with the stored watermark is the newest
  fetched message, seen before or not: for a non-empty list it is the first message of
  maximal timestamp among all fetched messages, so that whenever some fetched message is
  newer than the stored timestamp it is a newest one of these; for an empty list it is
  None.
\<close>

theorem get_latest_message_newest_fetched:
  "(get_latest_message ms = None \<longleftrightarrow> ms = [])
   \<and> (\<forall>m. get_latest_message ms = Some m \<longrightarrow>
         (\<exists>pre post. ms = pre @ m # post
            \<and> (\<forall>x \<in> set pre. message_time x < message_time m)
            \<and> (\<forall>x \<in> set post. message_time x \<le> message_time m))
         \<and> ((\<exists>x \<in> set ms. ts < message_time x) \<longrightarrow> ts < message_time m))"
proof (intro conjI allI impI)
  show "get_latest_message ms = None \<longleftrightarrow> ms = []" by (rule get_latest_message_None)
next
  fix m assume "get_latest_message ms = Some m"
  then show "\<exists>pre post. ms = pre @ m # post
            \<and> (\<forall>x \<in> set pre. message_time x < message_time m)
            \<and> (\<forall>x \<in> set post. message_time x \<le> message_time m)"
    by (rule get_latest_message_Some)
next
  fix m assume m: "get_latest_message ms = Some m" and "\<exists>x \<in> set ms. ts < message_time x"
  then obtain x where x: "x \<in> set ms" "ts < message_time x" by blast
  from get_latest_message_Some [OF m] obtain pre post where sp: "ms = pre @ m # post"
    and pre: "\<forall>x \<in> set pre. message_time x < message_time m"
    and post: "\<forall>x \<in> set post. message_time x \<le> message_time m"
    by blast
  from x(1) sp have "x \<in> set pre \<or> x = m \<or> x \<in> set post" by auto
  then have "message_time x \<le> message_time m" using pre post by (auto intro: less_imp_le)
  with x(2) show "ts < message_time m" by simp
qed

theorem get_latest_message_newest_fetched_witness:
  "get_latest_message newest_first_pages = Some (example_message 3 ''323'' 9 ''unread'')
   \<and> last_message_ts example_handler < message_time (example_message 3 ''323'' 9 ''unread'')"
proof -
  have l: "get_latest_message newest_first_pages = Some (example_message 3 ''323'' 9 ''unread'')"
    by (simp add: get_latest_message_def newest_first_pages_def example_message_def)
  have "\<exists>x \<in> set newest_first_pages. last_message_ts example_handler < message_time x"
    by (simp add: newest_first_pages_def example_message_def example_handler_def)
  with l get_latest_message_newest_fetched [of newest_first_pages "last_message_ts example_handler"]
  show ?thesis by blast
qed

text \<open>
  Claim C6, as stated, fails: the selection does not look at what was seen. When the only
  fetched message is the one the handler stored on an earlier call (same id, same
  timestamp, already marked as read), that message is selected.
\<close>

theorem get_latest_message_selects_seen:
  "get_latest_message [example_message 2 ''323'' 5 ''read'']
     = Some (example_message 2 ''323'' 5 ''read'')
   \<and> message_time (example_message 2 ''323'' 5 ''read'') \<le> last_message_ts example_handler
   \<and> messageId (example_message 2 ''323'' 5 ''read'') = last_message_id example_handler
   \<and> read_status (example_message 2 ''323'' 5 ''read'') = ''read''"
  by (simp add: get_latest_message_def example_message_def example_handler_def)

section \<open>Properties of the setup\<close>

lemma setup_message_handler_recorded:
  "message_handler (data hs) = Some cancel \<Longrightarrow> setup_message_handler hs env = (Inr (), hs)"
  by (simp add: setup_message_handler_def)

lemma setup_message_handler_records:
  "fst (setup_message_handler hs env) = Inr ()
   \<Longrightarrow> message_handler (data (snd (setup_message_handler hs env))) \<noteq> None"
  by (cases "message_handler (data hs)"; cases "async_track_time_interval env")
     (simp_all add: setup_message_handler_def)

lemma setup_message_handler_count:
  "handler_count_ok hs \<Longrightarrow> fst (setup_message_handler hs env) = Inr ()
   \<Longrightarrow> handler_count_ok (snd (setup_message_handler hs env))"
  by (cases "message_handler (data hs)"; cases "async_track_time_interval env")
     (simp_all add: setup_message_handler_def handler_count_ok_def)

lemma handler_fields_store_client:
  "handler_fields (store_client hs entry c) = handler_fields hs"
  by (simp add: handler_fields_def store_client_def)

lemma handler_fields_store_coordinator:
  "handler_fields (store_coordinator hs entry v c) = handler_fields hs"
  by (simp add: handler_fields_def store_coordinator_def Let_def)

lemma handler_fields_eq:
  assumes "handler_fields hs3 = handler_fields hs"
  shows "message_handler (data hs3) = message_handler (data hs)"
    and "handlers_created hs3 = handlers_created hs"
    and "callbacks_registered hs3 = callbacks_registered hs"
  using assms by (simp_all add: handler_fields_def)

lemma handler_count_ok_fields:
  assumes "handler_fields hs3 = handler_fields hs"
  shows "handler_count_ok hs3 = handler_count_ok hs"
  unfolding handler_count_ok_def handler_fields_eq [OF assms] ..

text \<open>
  Whatever path a setup call takes, it leaves the instance either as it was in the three
  fields that concern the handler, or as lines 70 to 83 make it; a call that returns True
  is of the second kind, with the handler's callback registered.
\<close>

lemma async_setup_entry_shape:
  "\<exists>hs3. handler_fields hs3 = handler_fields hs
      \<and> (async_setup_entry hs entry env = (Inl KeyError, hs3)
         \<or> async_setup_entry hs entry env = (Inr False, hs3)
         \<or> (fst (setup_message_handler hs3 env) \<noteq> Inr ()
             \<and> async_setup_entry hs entry env = (Inr False, snd (setup_message_handler hs3 env)))
         \<or> (fst (setup_message_handler hs3 env) = Inr ()
             \<and> async_setup_entry hs entry env = (Inr True, snd (setup_message_handler hs3 env))))"
proof -
  let ?hs1 = "store_client hs entry (Client (entry_id entry))"
  let ?hs3 = "\<lambda>v. store_coordinator ?hs1 entry v (Coordinator (entry_id entry))"
  have k0: "handler_fields hs = handler_fields hs" by simp
  have k1: "handler_fields ?hs1 = handler_fields hs" by (simp add: handler_fields_store_client)
  have k3: "handler_fields (?hs3 v) = handler_fields hs" for v
    by (simp add: handler_fields_store_client handler_fields_store_coordinator)
  have fin: "(case setup_message_handler h3 env of
        (Inl e, hs') \<Rightarrow> (Inr False, hs')
      | (Inr u, hs') \<Rightarrow> (Inr True, hs'))
      = (if fst (setup_message_handler h3 env) = Inr () then Inr True else Inr False,
         snd (setup_message_handler h3 env))" for h3
    by (cases "setup_message_handler h3 env"; cases "fst (setup_message_handler h3 env)") auto
  have "async_setup_entry hs entry env = (Inl KeyError, hs)
      \<or> async_setup_entry hs entry env = (Inr False, hs)
      \<or> async_setup_entry hs entry env = (Inr False, ?hs1)
      \<or> (\<exists>v. async_setup_entry hs entry env = (Inr False, ?hs3 v))
      \<or> (\<exists>v. async_setup_entry hs entry env
            = (if fst (setup_message_handler (?hs3 v) env) = Inr () then Inr True else Inr False,
               snd (setup_message_handler (?hs3 v) env)))"
    unfolding async_setup_entry_def fin
    by (simp split: option.split sum.split) blast
  then consider "async_setup_entry hs entry env = (Inl KeyError, hs)"
    | "async_setup_entry hs entry env = (Inr False, hs)"
    | "async_setup_entry hs entry env = (Inr False, ?hs1)"
    | v where "async_setup_entry hs entry env = (Inr False, ?hs3 v)"
    | v where "async_setup_entry hs entry env
            = (if fst (setup_message_handler (?hs3 v) env) = Inr () then Inr True else Inr False,
               snd (setup_message_handler (?hs3 v) env))"
    by blast
  then show ?thesis
  proof cases
    case 1 with k0 show ?thesis by blast
  next
    case 2 with k0 show ?thesis by blast
  next
    case 3 with k1 show ?thesis by blast
  next
    case 4 with k3 [of v] show ?thesis by blast
  next
    case 5
    show ?thesis
    proof (cases "fst (setup_message_handler (?hs3 v) env) = Inr ()")
      case True
      with 5 have "async_setup_entry hs entry env
          = (Inr True, snd (setup_message_handler (?hs3 v) env))" by simp
      with True k3 [of v] show ?thesis by blast
    next
      case False
      with 5 have "async_setup_entry hs entry env
          = (Inr False, snd (setup_message_handler (?hs3 v) env))" by simp
      with False k3 [of v] show ?thesis by blast
    qed
  qed
qed

lemma async_setup_entry_recorded:
  assumes rec: "message_handler (data hs) \<noteq> None"
  shows "handler_fields (snd (async_setup_entry hs entry env)) = handler_fields hs"
proof -
  from async_setup_entry_shape [of hs entry env] obtain hs3
    where k: "handler_fields hs3 = handler_fields hs"
      and sh: "async_setup_entry hs entry env = (Inl KeyError, hs3)
         \<or> async_setup_entry hs entry env = (Inr False, hs3)
         \<or> (fst (setup_message_handler hs3 env) \<noteq> Inr ()
             \<and> async_setup_entry hs entry env = (Inr False, snd (setup_message_handler hs3 env)))
         \<or> (fst (setup_message_handler hs3 env) = Inr ()
             \<and> async_setup_entry hs entry env = (Inr True, snd (setup_message_handler hs3 env)))"
    by (elim exE conjE)
  from rec obtain cancel where "message_handler (data hs) = Some cancel" by blast
  then have "message_handler (data hs3) = Some cancel"
    by (simp only: handler_fields_eq(1) [OF k])
  then have smh: "setup_message_handler hs3 env = (Inr (), hs3)"
    by (rule setup_message_handler_recorded)
  from sh have "snd (async_setup_entry hs entry env) = hs3"
    by (elim disjE conjE) (simp_all only: smh snd_conv fst_conv simp_thms)
  then show ?thesis by (simp only: k)
qed

lemma async_setup_entry_True:
  assumes t: "fst (async_setup_entry hs entry env) = Inr True"
  shows "\<exists>hs3. handler_fields hs3 = handler_fields hs
     \<and> fst (setup_message_handler hs3 env) = Inr ()
     \<and> snd (async_setup_entry hs entry env) = snd (setup_message_handler hs3 env)"
proof -
  from async_setup_entry_shape [of hs entry env] obtain hs3
    where k: "handler_fields hs3 = handler_fields hs"
      and sh: "async_setup_entry hs entry env = (Inl KeyError, hs3)
         \<or> async_setup_entry hs entry env = (Inr False, hs3)
         \<or> (fst (setup_message_handler hs3 env) \<noteq> Inr ()
             \<and> async_setup_entry hs entry env = (Inr False, snd (setup_message_handler hs3 env)))
         \<or> (fst (setup_message_handler hs3 env) = Inr ()
             \<and> async_setup_entry hs entry env = (Inr True, snd (setup_message_handler hs3 env)))"
    by (elim exE conjE)
  from sh have "fst (setup_message_handler hs3 env) = Inr ()
      \<and> snd (async_setup_entry hs entry env) = snd (setup_message_handler hs3 env)"
  proof (elim disjE conjE)
    assume "async_setup_entry hs entry env = (Inl KeyError, hs3)"
    with t have "(Inl KeyError :: error + bool) = Inr True" by (simp only: fst_conv)
    then show ?thesis by (simp only: sum.distinct)
  next
    assume "async_setup_entry hs entry env = (Inr False, hs3)"
    with t have "(Inr False :: error + bool) = Inr True" by (simp only: fst_conv)
    then show ?thesis by (simp only: sum.inject simp_thms)
  next
    assume "async_setup_entry hs entry env = (Inr False, snd (setup_message_handler hs3 env))"
    with t have "(Inr False :: error + bool) = Inr True" by (simp only: fst_conv)
    then show ?thesis by (simp only: sum.inject simp_thms)
  next
    assume "fst (setup_message_handler hs3 env) = Inr ()"
      and "async_setup_entry hs entry env = (Inr True, snd (setup_message_handler hs3 env))"
    then show ?thesis by (simp only: snd_conv simp_thms)
  qed
  with k show ?thesis by (intro exI [of _ hs3] conjI) (simp_all only:)
qed

lemma async_setup_entry_True_records:
  assumes "fst (async_setup_entry hs entry env) = Inr True"
  shows "message_handler (data (snd (async_setup_entry hs entry env))) \<noteq> None"
proof -
  from async_setup_entry_True [OF assms] obtain hs3
    where f: "fst (setup_message_handler hs3 env) = Inr ()"
      and s: "snd (async_setup_entry hs entry env) = snd (setup_message_handler hs3 env)"
    by (elim exE conjE)
  from setup_message_handler_records [OF f] show ?thesis unfolding s .
qed

lemma async_setup_entry_True_count:
  assumes ok: "handler_count_ok hs"
    and t: "fst (async_setup_entry hs entry env) = Inr True"
  shows "handler_count_ok (snd (async_setup_entry hs entry env))"
proof -
  from async_setup_entry_True [OF t] obtain hs3
    where k: "handler_fields hs3 = handler_fields hs"
      and f: "fst (setup_message_handler hs3 env) = Inr ()"
      and s: "snd (async_setup_entry hs entry env) = snd (setup_message_handler hs3 env)"
    by (elim exE conjE)
  from ok have "handler_count_ok hs3" by (simp only: handler_count_ok_fields [OF k])
  from setup_message_handler_count [OF this f] show ?thesis by (simp only: s)
qed

text \<open>Sequences of calls.\<close>

lemma setup_all_count:
  "handler_count_ok hs \<Longrightarrow> all_succeed hs calls \<Longrightarrow> handler_count_ok (setup_all hs calls)"
proof (induction calls arbitrary: hs)
  case Nil
  then show ?case by (simp only: setup_all.simps)
next
  case (Cons call calls)
  obtain entry env where call: "call = (entry, env)" by (cases call)
  from Cons.prems(2) have t: "fst (async_setup_entry hs entry env) = Inr True"
    and rest: "all_succeed (snd (async_setup_entry hs entry env)) calls"
    unfolding call all_succeed.simps by (rule conjunct1, rule conjunct2)
  from Cons.prems(1) t have "handler_count_ok (snd (async_setup_entry hs entry env))"
    by (rule async_setup_entry_True_count)
  from Cons.IH [OF this rest] show ?case unfolding call setup_all.simps .
qed

lemma setup_all_records:
  "calls \<noteq> [] \<Longrightarrow> all_succeed hs calls
   \<Longrightarrow> message_handler (data (setup_all hs calls)) \<noteq> None"
proof (induction calls arbitrary: hs)
  case Nil
  then show ?case by (simp only: simp_thms)
next
  case (Cons call calls)
  obtain entry env where call: "call = (entry, env)" by (cases call)
  from Cons.prems(2) have t: "fst (async_setup_entry hs entry env) = Inr True"
    and rest: "all_succeed (snd (async_setup_entry hs entry env)) calls"
    unfolding call all_succeed.simps by (rule conjunct1, rule conjunct2)
  show ?case
  proof (cases "calls = []")
    case True
    from async_setup_entry_True_records [OF t] show ?thesis
      unfolding call True setup_all.simps .
  next
    case False
    from Cons.IH [OF False rest] show ?thesis unfolding call setup_all.simps .
  qed
qed

lemma handler_count_ok_init: "handler_count_ok init_hass"
  by (simp add: handler_count_ok_def init_hass_def)

lemma handler_count_ok_le:
  assumes "handler_count_ok hs"
  shows "handlers_created hs \<le> 1 \<and> callbacks_registered hs \<le> 1"
  using assms by (cases "message_handler (data hs)") (simp_all add: handler_count_ok_def)

lemma handler_count_ok_recorded:
  assumes "handler_count_ok hs" "message_handler (data hs) \<noteq> None"
  shows "handlers_created hs = 1 \<and> callbacks_registered hs = 1"
  using assms by (cases "message_handler (data hs)") (simp_all add: handler_count_ok_def)

text \<open>
  Claim C10. From a fresh instance, after any sequence of setup calls that all return
  True, exactly one message handler has been constructed and one periodic callback
  registered (none after no call at all), so at most one of each. Once a callback is
  stored under \<^verbatim>\<open>message_handler\<close>, a setup call, successful or not, constructs no
  handler, registers no callback and leaves the stored one in place; and a callback is
  stored after every setup call that returns True.
\<close>

theorem at_most_one_message_handler:
  "(all_succeed init_hass calls \<longrightarrow>
      handlers_created (setup_all init_hass calls) = (if calls = [] then 0 else 1)
      \<and> callbacks_registered (setup_all init_hass calls) = (if calls = [] then 0 else 1))
   \<and> (\<forall>(hs :: hass) entry env. message_handler (data hs) \<noteq> None \<longrightarrow>
         handlers_created (snd (async_setup_entry hs entry env)) = handlers_created hs
         \<and> callbacks_registered (snd (async_setup_entry hs entry env)) = callbacks_registered hs
         \<and> message_handler (data (snd (async_setup_entry hs entry env)))
             = message_handler (data hs))
   \<and> (\<forall>(hs :: hass) entry env. fst (async_setup_entry hs entry env) = Inr True \<longrightarrow>
         message_handler (data (snd (async_setup_entry hs entry env))) \<noteq> None)"
proof (intro conjI allI impI)
  assume s: "all_succeed init_hass calls"
  have ok: "handler_count_ok (setup_all init_hass calls)"
    by (rule setup_all_count [OF handler_count_ok_init s])
  show "handlers_created (setup_all init_hass calls) = (if calls = [] then 0 else 1)"
  proof (cases "calls = []")
    case True
    then show ?thesis by (simp add: init_hass_def)
  next
    case False
    from handler_count_ok_recorded [OF ok setup_all_records [OF False s]] False
    show ?thesis by (simp only: if_False)
  qed
  show "callbacks_registered (setup_all init_hass calls) = (if calls = [] then 0 else 1)"
  proof (cases "calls = []")
    case True
    then show ?thesis by (simp add: init_hass_def)
  next
    case False
    from handler_count_ok_recorded [OF ok setup_all_records [OF False s]] False
    show ?thesis by (simp only: if_False)
  qed
next
  fix hs :: hass and entry env assume "message_handler (data hs) \<noteq> None"
  then have f: "handler_fields (snd (async_setup_entry hs entry env)) = handler_fields hs"
    by (rule async_setup_entry_recorded)
  show "handlers_created (snd (async_setup_entry hs entry env)) = handlers_created hs"
    by (rule handler_fields_eq(2) [OF f])
  show "callbacks_registered (snd (async_setup_entry hs entry env)) = callbacks_registered hs"
    by (rule handler_fields_eq(3) [OF f])
  show "message_handler (data (snd (async_setup_entry hs entry env)))
             = message_handler (data hs)"
    by (rule handler_fields_eq(1) [OF f])
next
  fix hs :: hass and entry env assume "fst (async_setup_entry hs entry env) = Inr True"
  then show "message_handler (data (snd (async_setup_entry hs entry env))) \<noteq> None"
    by (rule async_setup_entry_True_records)
qed

lemma setup_message_handler_registers:
  "async_track_time_interval env = Inr () \<Longrightarrow> fst (setup_message_handler hs env) = Inr ()"
  by (cases "message_handler (data hs)") (simp_all add: setup_message_handler_def)

lemma finish_cases:
  "(case setup_message_handler h3 env of
        (Inl e, hs') \<Rightarrow> (Inr False, hs')
      | (Inr u, hs') \<Rightarrow> (Inr True, hs'))
      = (if fst (setup_message_handler h3 env) = Inr () then Inr True else Inr False,
         snd (setup_message_handler h3 env))"
  by (cases "setup_message_handler h3 env"; cases "fst (setup_message_handler h3 env)") auto

lemma example_setup_succeeds:
  assumes "v \<in> set vehicles" "v \<noteq> []"
  shows "fst (async_setup_entry hs (example_entry eid v) (ok_env vehicles)) = Inr True"
proof -
  have t: "async_track_time_interval (ok_env vehicles) = Inr ()" by (simp add: ok_env_def)
  have e: "username (example_entry eid v) = Some ''user@example.org''"
    "password (example_entry eid v) = Some ''secret''"
    "entry_vin (example_entry eid v) = Some v"
    by (simp_all add: example_entry_def)
  have o: "login (ok_env vehicles) = Inr ()" "get_vehicle_info (ok_env vehicles) = Inr vehicles"
    "coordinator_async_setup (ok_env vehicles) = Inr ()"
    "add_update_listener (ok_env vehicles) = Inr ()"
    "async_forward_entry_setups (ok_env vehicles) = Inr ()"
    "async_setup_services (ok_env vehicles) = Inr ()"
    by (simp_all add: ok_env_def)
  have m: "\<exists>w \<in> set vehicles. w = v" using assms(1) by simp
  show ?thesis
    unfolding async_setup_entry_def finish_cases
    by (simp only: e o m assms(2) setup_message_handler_registers [OF t] option.case sum.case
        if_True if_False not_True_eq_False not_False_eq_True fst_conv simp_thms)
qed

lemma two_vehicle_setups_succeed: "all_succeed init_hass two_vehicle_setups"
  unfolding two_vehicle_setups_def all_succeed.simps
  by (intro conjI example_setup_succeeds TrueI) simp_all

theorem at_most_one_message_handler_witness:
  "all_succeed init_hass two_vehicle_setups
   \<and> handlers_created (setup_all init_hass two_vehicle_setups) = 1
   \<and> callbacks_registered (setup_all init_hass two_vehicle_setups) = 1
   \<and> fst (async_setup_entry init_hass (example_entry ''entry1'' ''VIN1'')
          (ok_env [''VIN1'', ''VIN2''])) = Inr True
   \<and> handlers_created
       (snd (async_setup_entry
          (snd (async_setup_entry init_hass (example_entry ''entry1'' ''VIN1'')
             (ok_env [''VIN1'', ''VIN2''])))
          (example_entry ''entry2'' ''VIN2'') (ok_env [''VIN1'', ''VIN2''])))
     = handlers_created
         (snd (async_setup_entry init_hass (example_entry ''entry1'' ''VIN1'')
            (ok_env [''VIN1'', ''VIN2''])))"
proof -
  let ?e1 = "example_entry ''entry1'' ''VIN1''"
  let ?e2 = "example_entry ''entry2'' ''VIN2''"
  let ?env = "ok_env [''VIN1'', ''VIN2'']"
  let ?hs1 = "snd (async_setup_entry init_hass ?e1 ?env)"
  note main = at_most_one_message_handler [of two_vehicle_setups]
  have s: "all_succeed init_hass two_vehicle_setups" by (rule two_vehicle_setups_succeed)
  have ne: "two_vehicle_setups \<noteq> []" by (simp add: two_vehicle_setups_def)
  from main have c1: "all_succeed init_hass two_vehicle_setups \<longrightarrow>
      handlers_created (setup_all init_hass two_vehicle_setups)
        = (if two_vehicle_setups = [] then 0 else 1)
      \<and> callbacks_registered (setup_all init_hass two_vehicle_setups)
        = (if two_vehicle_setups = [] then 0 else 1)"
    by (rule conjunct1)
  from c1 [rule_format, OF s] ne
  have n: "handlers_created (setup_all init_hass two_vehicle_setups) = 1
      \<and> callbacks_registered (setup_all init_hass two_vehicle_setups) = 1"
    by (simp only: if_False)
  have t1: "fst (async_setup_entry init_hass ?e1 ?env) = Inr True"
    by (rule example_setup_succeeds) simp_all
  from main have c3: "\<forall>(hs :: hass) entry env. fst (async_setup_entry hs entry env) = Inr True \<longrightarrow>
         message_handler (data (snd (async_setup_entry hs entry env))) \<noteq> None"
    by (rule conjunct2 [THEN conjunct2])
  from c3 [rule_format, OF t1] have rec: "message_handler (data ?hs1) \<noteq> None" .
  from main have c2: "\<forall>(hs :: hass) entry env. message_handler (data hs) \<noteq> None \<longrightarrow>
         handlers_created (snd (async_setup_entry hs entry env)) = handlers_created hs
         \<and> callbacks_registered (snd (async_setup_entry hs entry env)) = callbacks_registered hs
         \<and> message_handler (data (snd (async_setup_entry hs entry env)))
             = message_handler (data hs)"
    by (rule conjunct2 [THEN conjunct1])
  from c2 [rule_format, OF rec, of ?e2 ?env]
  have same: "handlers_created (snd (async_setup_entry ?hs1 ?e2 ?env)) = handlers_created ?hs1"
    by (rule conjunct1)
  from s n t1 same show ?thesis by (intro conjI) (simp_all only:)
qed

end
